theory Spec2Isabelle
  imports Main
begin

section \<open>Text as sequences of code points\<close>

text \<open>
  The program works on Python \<open>str\<close> values: sequences of Unicode code points.
  A code point is a natural number here, so that no input text is excluded; a text is a
  list of them. \<open>lit\<close> turns an ASCII literal into such a text.
\<close>

type_synonym pystr = "nat list"

definition lit :: "string \<Rightarrow> pystr" where
  "lit s = map of_char s"

definition NL :: nat where "NL = 10"
definition CR :: nat where "CR = 13"
definition COLON :: nat where "COLON = 58"
definition HASH :: nat where "HASH = 35"
definition BACKTICK :: nat where "BACKTICK = 96"

text \<open>
  Whitespace as \<open>\s\<close> of \<open>re\<close> (on \<open>str\<close> patterns) and \<open>str.strip()\<close> see it:
  the code points for which \<open>str.isspace()\<close> holds.
\<close>

definition is_space :: "nat \<Rightarrow> bool" where
  "is_space c \<longleftrightarrow>
     c \<in> {9, 10, 11, 12, 13, 28, 29, 30, 31, 32, 133, 160, 5760,
          8232, 8233, 8239, 8287, 12288} \<or> (8192 \<le> c \<and> c \<le> 8202)"

text \<open>The line boundaries of \<open>str.splitlines()\<close> (besides the pair CR LF).\<close>

definition is_linebreak :: "nat \<Rightarrow> bool" where
  "is_linebreak c \<longleftrightarrow> c \<in> {10, 11, 12, 13, 28, 29, 30, 133, 8232, 8233}"

definition lstrip :: "pystr \<Rightarrow> pystr" where
  "lstrip s = dropWhile is_space s"

definition rstrip :: "pystr \<Rightarrow> pystr" where
  "rstrip s = rev (dropWhile is_space (rev s))"

text \<open>\<open>s.strip()\<close>\<close>

definition strip :: "pystr \<Rightarrow> pystr" where
  "strip s = rstrip (lstrip s)"

text \<open>\<open>s.rstrip("\n")\<close>\<close>

definition rstrip_nl :: "pystr \<Rightarrow> pystr" where
  "rstrip_nl s = rev (dropWhile (\<lambda>c. c = NL) (rev s))"

text \<open>\<open>s.startswith(p)\<close>\<close>

definition startswith :: "pystr \<Rightarrow> pystr \<Rightarrow> bool" where
  "startswith s p \<longleftrightarrow> take (length p) s = p"

text \<open>\<open>s.replace("\r\n", "\n")\<close>: leftmost occurrences first, none overlapping.\<close>

fun replace_crlf :: "pystr \<Rightarrow> pystr" where
  "replace_crlf (c # d # s) =
     (if c = CR \<and> d = NL then NL # replace_crlf s else c # replace_crlf (d # s))"
| "replace_crlf s = s"

section \<open>split_sections\<close>

text \<open>
  The separator pattern \<open>\n?###\s+\<close> tried at the start of a text; the result is the
  text left after the match. \<open>match_hashes_ws\<close> is the part \<open>###\s+\<close>: three
  hashes, one whitespace at least, then every whitespace that follows (greedy, and nothing
  after it in the pattern can make it give any back). The optional newline is greedy too:
  it is taken first, and given back when the rest fails.
\<close>

definition match_hashes_ws :: "pystr \<Rightarrow> pystr option" where
  "match_hashes_ws s =
     (if take 3 s = [HASH, HASH, HASH] then
        (case drop 3 s of
           [] \<Rightarrow> None
         | c # r \<Rightarrow> if is_space c then Some (dropWhile is_space r) else None)
      else None)"

definition match_marker :: "pystr \<Rightarrow> pystr option" where
  "match_marker s =
     (case s of
        [] \<Rightarrow> match_hashes_ws s
      | c # r \<Rightarrow>
          if c = NL then
            (case match_hashes_ws r of Some t \<Rightarrow> Some t | None \<Rightarrow> match_hashes_ws s)
          else match_hashes_ws s)"

text \<open>
  \<open>re.split(r"\n?###\s+", t)\<close>: the text is scanned from the left; where the pattern
  matches, the chunk read so far ends and the scan goes on after the match; elsewhere the
  character joins the current chunk. A match is never empty.
\<close>

definition cons_first :: "nat \<Rightarrow> pystr list \<Rightarrow> pystr list" where
  "cons_first c chunks = (case chunks of [] \<Rightarrow> [[c]] | ch # chs \<Rightarrow> (c # ch) # chs)"

function re_split_marker :: "pystr \<Rightarrow> pystr list" where
  "re_split_marker [] = [[]]"
| "re_split_marker (c # s) =
     (case match_marker (c # s) of
        Some rest \<Rightarrow> [] # re_split_marker rest
      | None \<Rightarrow> cons_first c (re_split_marker s))"
  by pat_completeness auto
termination
proof (relation "measure length")
  show "wf (measure length)" by simp
next
  fix c :: nat and s rest :: pystr
  assume m: "match_marker (c # s) = Some rest"
  have shorter: "length t < length u" if "match_hashes_ws u = Some t" for t u
  proof -
    from that obtain d r where d: "drop 3 u = d # r" and t: "t = dropWhile is_space r"
      by (auto simp: match_hashes_ws_def split: if_splits list.splits)
    have "length t \<le> length r" unfolding t by (rule length_dropWhile_le)
    moreover have "length (drop 3 u) = Suc (length r)" using d by simp
    ultimately show ?thesis by simp
  qed
  from m have "length rest < length (c # s)"
    by (auto simp: match_marker_def split: if_splits option.splits dest: shorter)
  then show "(rest, c # s) \<in> measure length" by simp
next
  fix c :: nat and s :: pystr
  show "(s, c # s) \<in> measure length" by simp
qed

text \<open>
  The heading of a chunk, common to both patterns: \<open>([^:\n]+):\<close> at the start of the
  chunk. The class is greedy and a shorter title cannot be followed by a colon, so the
  title is the longest run without colon and newline, it is not empty, and a colon follows.
  The result is the title and the text after the colon.
\<close>

definition match_title :: "pystr \<Rightarrow> (pystr \<times> pystr) option" where
  "match_title ch =
     (let g1 = takeWhile (\<lambda>c. c \<noteq> COLON \<and> c \<noteq> NL) ch in
      if g1 = [] then None
      else (case dropWhile (\<lambda>c. c \<noteq> COLON \<and> c \<noteq> NL) ch of
              [] \<Rightarrow> None
            | c # after \<Rightarrow> if c = COLON then Some (g1, after) else None))"

text \<open>
  \<open>\s*\n(.*)\<close> with \<open>re.S\<close>, after the colon: \<open>\s*\<close> first takes \<open>n\<close> whitespace
  characters, all there are, and gives them back one by one until a newline follows;
  the group is everything after that newline.
\<close>

fun backtrack_nl :: "nat \<Rightarrow> pystr \<Rightarrow> pystr option" where
  "backtrack_nl 0 s = (case s of [] \<Rightarrow> None | c # r \<Rightarrow> if c = NL then Some r else None)"
| "backtrack_nl (Suc n) s =
     (case drop (Suc n) s of
        [] \<Rightarrow> backtrack_nl n s
      | c # r \<Rightarrow> if c = NL then Some r else backtrack_nl n s)"

text \<open>\<open>re.match(r"([^:\n]+):\s*\n(.*)", ch, flags=re.S)\<close>: groups 1 and 2.\<close>

definition match_multiline :: "pystr \<Rightarrow> (pystr \<times> pystr) option" where
  "match_multiline ch =
     (case match_title ch of
        None \<Rightarrow> None
      | Some (g1, after) \<Rightarrow>
          (case backtrack_nl (length (takeWhile is_space after)) after of
             None \<Rightarrow> None
           | Some g2 \<Rightarrow> Some (g1, g2)))"

text \<open>\<open>re.match(r"([^:\n]+):\s*(.*)", ch, flags=re.S)\<close>: groups 1 and 2.\<close>

definition match_single_line :: "pystr \<Rightarrow> (pystr \<times> pystr) option" where
  "match_single_line ch =
     (case match_title ch of
        None \<Rightarrow> None
      | Some (g1, after) \<Rightarrow> Some (g1, dropWhile is_space after))"

text \<open>
  The body of the loop over the chunks: a blank chunk is skipped, the multi-line pattern is
  tried before the single-line one, and a chunk matching neither stores nothing.
\<close>

definition parse_chunk :: "pystr \<Rightarrow> (pystr \<times> pystr) option" where
  "parse_chunk ch =
     (if strip ch = [] then None
      else (case (case match_multiline ch of
                    Some m \<Rightarrow> Some m
                  | None \<Rightarrow> match_single_line ch) of
              None \<Rightarrow> None
            | Some (g1, g2) \<Rightarrow> Some (strip g1, strip g2)))"

fun store_sections :: "(pystr \<rightharpoonup> pystr) \<Rightarrow> pystr list \<Rightarrow> (pystr \<rightharpoonup> pystr)" where
  "store_sections sections [] = sections"
| "store_sections sections (ch # chunks) =
     (case parse_chunk ch of
        None \<Rightarrow> store_sections sections chunks
      | Some (key, val) \<Rightarrow> store_sections (sections(key \<mapsto> val)) chunks)"

definition split_sections :: "pystr \<Rightarrow> (pystr \<rightharpoonup> pystr)" where
  "split_sections md_text =
     store_sections Map.empty (re_split_marker (replace_crlf md_text))"

section \<open>extract_fenced_code\<close>

definition FENCE :: pystr where
  "FENCE = [BACKTICK, BACKTICK, BACKTICK]"

text \<open>
  \<open>(.*?)```\<close> with \<open>re.S\<close>: the lazy group starts empty and grows by one character
  at a time until the three backticks follow; the result is the group.
\<close>

fun lazy_until_fence :: "pystr \<Rightarrow> pystr option" where
  "lazy_until_fence [] = None"
| "lazy_until_fence (c # s) =
     (if take 3 (c # s) = FENCE then Some []
      else (case lazy_until_fence s of None \<Rightarrow> None | Some g \<Rightarrow> Some (c # g)))"

text \<open>
  The whole pattern \<open>```[^\n]*\n(.*?)```\<close> tried at the start of a text; the result is
  group 1. The class \<open>[^\n]*\<close> is greedy: it runs to the end of the line, and giving
  characters back cannot help, since a newline must follow it.
\<close>

definition match_fence :: "pystr \<Rightarrow> pystr option" where
  "match_fence s =
     (if take 3 s = FENCE then
        (case dropWhile (\<lambda>c. c \<noteq> NL) (drop 3 s) of
           [] \<Rightarrow> None
         | c # body \<Rightarrow> lazy_until_fence body)
      else None)"

text \<open>\<open>re.search\<close>: the pattern is tried at every position, from left to right.\<close>

fun search_fence :: "pystr \<Rightarrow> pystr option" where
  "search_fence [] = match_fence []"
| "search_fence (c # s) =
     (case match_fence (c # s) of Some g \<Rightarrow> Some g | None \<Rightarrow> search_fence s)"

definition extract_fenced_code :: "pystr \<Rightarrow> pystr option" where
  "extract_fenced_code md =
     (case search_fence md of None \<Rightarrow> None | Some g \<Rightarrow> Some (rstrip_nl g))"

text \<open>A text holds a fence marker: three backticks in a row, somewhere.\<close>

fun has_fence :: "pystr \<Rightarrow> bool" where
  "has_fence [] = False"
| "has_fence (c # s) = (take 3 (c # s) = FENCE \<or> has_fence s)"

section \<open>Document assembly\<close>




text \<open>
  What the program asks of the template: whether \<open>doc.styles[name]\<close> finds a style, and
  whether giving the title paragraph the style \<open>DocTitle\<close> raises.
\<close>

record template =
  has_style :: "pystr \<Rightarrow> bool"
  title_style_raises :: bool

definition Titulo :: pystr where
  "Titulo = lit ''T'' @ [237] @ lit ''tulo''"

definition Descricao :: pystr where
  "Descricao = lit ''Descri'' @ [231, 227] @ lit ''o''"

definition Entradas :: pystr where
  "Entradas = lit ''Entradas''"

definition Saidas :: pystr where
  "Saidas = lit ''Sa'' @ [237] @ lit ''das''"

definition Fluxo_de_Execucao :: pystr where
  "Fluxo_de_Execucao = lit ''Fluxo de Execu'' @ [231, 227] @ lit ''o''"

definition Dependencias :: pystr where
  "Dependencias = lit ''Depend'' @ [234] @ lit ''ncias''"

definition Erros_Comuns :: pystr where
  "Erros_Comuns = lit ''Erros Comuns''"

definition Exemplo_de_Uso :: pystr where
  "Exemplo_de_Uso = lit ''Exemplo de Uso''"


definition Codigo_Fonte_Anexo :: pystr where
  "Codigo_Fonte_Anexo = lit ''C'' @ [243] @ lit ''digo-Fonte (Anexo)''"










text \<open>
  The files and options \<open>build\<close> is called on: whether each path exists, what
  \<open>read_text\<close> gives for the two texts, the name of the source file, the template.
\<close>

record request =
  md_exists :: bool
  src_exists :: bool
  template_exists :: bool
  md_text :: pystr
  source_code :: pystr
  src_name :: pystr
  tpl :: template
  include_source :: bool




section \<open>Evaluation on concrete texts\<close>

lemmas code_points = NL_def CR_def COLON_def HASH_def BACKTICK_def FENCE_def lit_def

lemmas text_ops = is_space_def is_linebreak_def lstrip_def rstrip_def strip_def
  rstrip_nl_def startswith_def cons_first_def

lemmas section_ops = match_hashes_ws_def match_marker_def match_title_def
  match_multiline_def match_single_line_def parse_chunk_def split_sections_def

lemmas key_names = Titulo_def Descricao_def Entradas_def Saidas_def Fluxo_de_Execucao_def
  Dependencias_def Erros_Comuns_def Exemplo_de_Uso_def Codigo_Fonte_Anexo_def


section \<open>The two heading forms\<close>

text \<open>
  Claim C4. \<open>split_sections\<close> accepts both forms of a section, the multi-line pattern
  being tried first and the single-line one second. The text
  \<open>"### Titulo:\nHello\n### Descricao:\nWorld\n"\<close> gives the mapping of
  \<open>Titulo\<close> to \<open>Hello\<close> and \<open>Descricao\<close> to \<open>World\<close>, its two chunks matching
  the multi-line pattern; the text \<open>"### Titulo: Hello\n"\<close> gives the mapping of
  \<open>Titulo\<close> to \<open>Hello\<close>, its chunk matching the single-line pattern only.
\<close>

theorem split_sections_both_forms:
  "split_sections (lit ''### '' @ Titulo @ lit '':'' @ [NL] @ lit ''Hello'' @ [NL]
                   @ lit ''### '' @ Descricao @ lit '':'' @ [NL] @ lit ''World'' @ [NL])
     = [Titulo \<mapsto> lit ''Hello'', Descricao \<mapsto> lit ''World'']
   \<and> match_multiline (Titulo @ lit '':'' @ [NL] @ lit ''Hello'') = Some (Titulo, lit ''Hello'')
   \<and> match_multiline (Descricao @ lit '':'' @ [NL] @ lit ''World'' @ [NL])
       = Some (Descricao, lit ''World'' @ [NL])
   \<and> split_sections (lit ''### '' @ Titulo @ lit '': Hello'' @ [NL])
       = [Titulo \<mapsto> lit ''Hello'']
   \<and> match_multiline (Titulo @ lit '': Hello'' @ [NL]) = None
   \<and> match_single_line (Titulo @ lit '': Hello'' @ [NL])
       = Some (Titulo, lit ''Hello'' @ [NL])"
  by (simp add: code_points text_ops section_ops key_names)

section \<open>Text before the first heading marker\<close>

text \<open>
  Claim C1 says that a text without any \<open>###\<close> marker gives the empty mapping and that
  the text before the first marker gives no entry. The chunk before the first marker goes
  through the same two patterns as every other chunk: \<open>"Nota: abc"\<close>, which has no marker,
  gives the entry \<open>Nota\<close>, and so does the same text in front of a heading.
\<close>

theorem split_sections_keeps_preamble_entry:
  "split_sections (lit ''Nota: abc'') = [lit ''Nota'' \<mapsto> lit ''abc'']
   \<and> re_split_marker (replace_crlf (lit ''Nota: abc'')) = [lit ''Nota: abc'']
   \<and> split_sections (lit ''Nota: abc'' @ [NL] @ lit ''### T:'' @ [NL] @ lit ''x'')
       = [lit ''Nota'' \<mapsto> lit ''abc'', lit ''T'' \<mapsto> lit ''x'']"
  by (simp add: code_points text_ops section_ops)

section \<open>What the mapping holds\<close>

subsection \<open>Trimming\<close>

lemma set_strip: "set (strip s) \<subseteq> set s"
proof -
  have "set (rstrip t) \<subseteq> set t" for t
    unfolding rstrip_def using set_dropWhileD [of _ is_space "rev t"] by auto
  moreover have "set (lstrip s) \<subseteq> set s"
    unfolding lstrip_def using set_dropWhileD [of _ is_space s] by auto
  ultimately show ?thesis unfolding strip_def by blast
qed

lemma rstrip_prefix: "\<exists>ws. t = rstrip t @ ws"
proof -
  have "t = rev (takeWhile is_space (rev t) @ dropWhile is_space (rev t))"
    by simp
  also have "\<dots> = rstrip t @ rev (takeWhile is_space (rev t))"
    unfolding rstrip_def by (rule rev_append)
  finally show ?thesis ..
qed

lemma last_rstrip: "rstrip t \<noteq> [] \<Longrightarrow> \<not> is_space (last (rstrip t))"
  unfolding rstrip_def by (simp add: last_rev hd_dropWhile)

lemma hd_rstrip: "rstrip t \<noteq> [] \<Longrightarrow> hd (rstrip t) = hd t"
proof -
  assume a: "rstrip t \<noteq> []"
  obtain ws where "t = rstrip t @ ws" using rstrip_prefix by blast
  then have "hd t = hd (rstrip t @ ws)" by simp
  also have "\<dots> = hd (rstrip t)" using a by simp
  finally show ?thesis by simp
qed

lemma strip_trimmed:
  "strip s \<noteq> [] \<Longrightarrow> \<not> is_space (hd (strip s)) \<and> \<not> is_space (last (strip s))"
proof -
  assume a: "strip s \<noteq> []"
  then have r: "rstrip (lstrip s) \<noteq> []" by (simp add: strip_def)
  then have l: "lstrip s \<noteq> []" by (auto simp: rstrip_def)
  have "hd (strip s) = hd (lstrip s)" using hd_rstrip [OF r] by (simp add: strip_def)
  moreover have "\<not> is_space (hd (lstrip s))"
    using l unfolding lstrip_def by (rule hd_dropWhile)
  moreover have "\<not> is_space (last (strip s))"
    using last_rstrip [OF r] by (simp add: strip_def)
  ultimately show ?thesis by simp
qed

lemma match_title_group:
  "match_title ch = Some (g1, after) \<Longrightarrow> COLON \<notin> set g1 \<and> NL \<notin> set g1"
  by (auto simp: match_title_def Let_def split: if_splits list.splits dest: set_takeWhileD)

lemma parse_chunk_key:
  assumes "parse_chunk ch = Some (k, v)"
  shows "\<exists>g1 g2. k = strip g1 \<and> v = strip g2 \<and> COLON \<notin> set g1 \<and> NL \<notin> set g1"
  using assms
  by (auto simp: parse_chunk_def match_multiline_def match_single_line_def
      split: if_splits option.splits prod.splits dest: match_title_group)

lemma parse_chunk_trimmed:
  assumes "parse_chunk ch = Some (k, v)"
  shows "COLON \<notin> set k \<and> NL \<notin> set k
     \<and> (k \<noteq> [] \<longrightarrow> \<not> is_space (hd k) \<and> \<not> is_space (last k))
     \<and> (v \<noteq> [] \<longrightarrow> \<not> is_space (hd v) \<and> \<not> is_space (last v))"
proof -
  from parse_chunk_key [OF assms] obtain g1 g2
    where k: "k = strip g1" and v: "v = strip g2"
      and c: "COLON \<notin> set g1" and n: "NL \<notin> set g1" by blast
  have "COLON \<notin> set k" "NL \<notin> set k" using set_strip [of g1] c n k by auto
  then show ?thesis using strip_trimmed [of g1] strip_trimmed [of g2] k v by simp
qed

lemma store_sections_cases:
  "store_sections m chunks k = Some v \<Longrightarrow>
     m k = Some v \<or> (\<exists>ch \<in> set chunks. parse_chunk ch = Some (k, v))"
proof (induction chunks arbitrary: m)
  case Nil
  then show ?case by simp
next
  case (Cons ch chunks)
  show ?case
  proof (cases "parse_chunk ch")
    case None
    with Cons show ?thesis by auto
  next
    case (Some e)
    obtain k' v' where e: "e = (k', v')" by (cases e)
    from Cons.prems Some e have "store_sections (m(k' \<mapsto> v')) chunks k = Some v" by simp
    from Cons.IH [OF this] Some e show ?thesis by (auto split: if_splits)
  qed
qed

text \<open>
  Claim C9. For every text, a key of the mapping returned by \<open>split_sections\<close> has no
  colon and no newline in it and neither starts nor ends with whitespace, and its value
  neither starts nor ends with whitespace.
\<close>

theorem split_sections_entries_trimmed:
  assumes "split_sections md k = Some v"
  shows "COLON \<notin> set k \<and> NL \<notin> set k
     \<and> (k \<noteq> [] \<longrightarrow> \<not> is_space (hd k) \<and> \<not> is_space (last k))
     \<and> (v \<noteq> [] \<longrightarrow> \<not> is_space (hd v) \<and> \<not> is_space (last v))"
proof -
  from assms store_sections_cases [of Map.empty _ k v]
  obtain ch where "parse_chunk ch = Some (k, v)"
    unfolding split_sections_def by fastforce
  then show ?thesis by (rule parse_chunk_trimmed)
qed

theorem split_sections_entries_trimmed_witness:
  "split_sections (lit ''###  Nome do script : a b  '' @ [NL]) (lit ''Nome do script'')
     = Some (lit ''a b'')
   \<and> COLON \<notin> set (lit ''Nome do script'') \<and> NL \<notin> set (lit ''Nome do script'')
   \<and> \<not> is_space (hd (lit ''Nome do script'')) \<and> \<not> is_space (last (lit ''Nome do script''))
   \<and> \<not> is_space (hd (lit ''a b'')) \<and> \<not> is_space (last (lit ''a b''))"
proof -
  have h: "split_sections (lit ''###  Nome do script : a b  '' @ [NL]) (lit ''Nome do script'')
     = Some (lit ''a b'')"
    by (simp add: code_points text_ops section_ops)
  show ?thesis
    using h split_sections_entries_trimmed [OF h] by (simp add: lit_def)
qed

subsection \<open>A heading given twice\<close>

lemma store_sections_last:
  assumes "parse_chunk ch = Some (k, v)"
    and "\<forall>ch' \<in> set post. \<forall>v'. parse_chunk ch' \<noteq> Some (k, v')"
  shows "store_sections m (pre @ ch # post) k = Some v"
proof -
  have keep: "store_sections m' post k = m' k" for m'
    using assms(2)
  proof (induction post arbitrary: m')
    case Nil
    then show ?case by simp
  next
    case (Cons c post)
    then show ?case by (cases "parse_chunk c") auto
  qed
  have app: "store_sections m' (xs @ ys) = store_sections (store_sections m' xs) ys" for m' xs ys
    by (induction xs arbitrary: m') (auto split: option.splits)
  show ?thesis using assms(1) by (simp add: app keep)
qed

text \<open>
  Claim C5. When a title is the heading of several chunks of a text, \<open>split_sections\<close>
  maps it to the content of the last of them: whatever chunks come before, the chunk \<open>ch\<close>
  with title \<open>k\<close> that no later chunk with the same title follows decides the value of
  \<open>k\<close>. The result being a mapping, a key has one value.
\<close>

theorem split_sections_last_write_wins:
  assumes "re_split_marker (replace_crlf md) = pre @ ch # post"
    and "parse_chunk ch = Some (k, v)"
    and "\<forall>ch' \<in> set post. \<forall>v'. parse_chunk ch' \<noteq> Some (k, v')"
  shows "split_sections md k = Some v"
  unfolding split_sections_def assms(1)
  using assms(2,3) by (rule store_sections_last)

theorem split_sections_last_write_wins_witness:
  "re_split_marker (replace_crlf
      (lit ''### A:'' @ [NL] @ lit ''1'' @ [NL] @ lit ''### A:'' @ [NL] @ lit ''2'' @ [NL]
       @ lit ''### B:'' @ [NL] @ lit ''3''))
     = [[], lit ''A:'' @ [NL] @ lit ''1''] @ (lit ''A:'' @ [NL] @ lit ''2'')
       # [lit ''B:'' @ [NL] @ lit ''3'']
   \<and> parse_chunk (lit ''A:'' @ [NL] @ lit ''1'') = Some (lit ''A'', lit ''1'')
   \<and> parse_chunk (lit ''A:'' @ [NL] @ lit ''2'') = Some (lit ''A'', lit ''2'')
   \<and> parse_chunk (lit ''B:'' @ [NL] @ lit ''3'') = Some (lit ''B'', lit ''3'')
   \<and> split_sections
       (lit ''### A:'' @ [NL] @ lit ''1'' @ [NL] @ lit ''### A:'' @ [NL] @ lit ''2'' @ [NL]
        @ lit ''### B:'' @ [NL] @ lit ''3'') (lit ''A'') = Some (lit ''2'')"
proof -
  have chunks: "re_split_marker (replace_crlf
      (lit ''### A:'' @ [NL] @ lit ''1'' @ [NL] @ lit ''### A:'' @ [NL] @ lit ''2'' @ [NL]
       @ lit ''### B:'' @ [NL] @ lit ''3''))
     = [[], lit ''A:'' @ [NL] @ lit ''1''] @ (lit ''A:'' @ [NL] @ lit ''2'')
       # [lit ''B:'' @ [NL] @ lit ''3'']"
    by (simp add: code_points text_ops section_ops)
  have first: "parse_chunk (lit ''A:'' @ [NL] @ lit ''1'') = Some (lit ''A'', lit ''1'')"
    by (simp add: code_points text_ops section_ops)
  have second: "parse_chunk (lit ''A:'' @ [NL] @ lit ''2'') = Some (lit ''A'', lit ''2'')"
    by (simp add: code_points text_ops section_ops)
  have third: "parse_chunk (lit ''B:'' @ [NL] @ lit ''3'') = Some (lit ''B'', lit ''3'')"
    by (simp add: code_points text_ops section_ops)
  have later: "\<forall>ch' \<in> set [lit ''B:'' @ [NL] @ lit ''3'']. \<forall>v'.
      parse_chunk ch' \<noteq> Some (lit ''A'', v')"
    using third by (simp add: lit_def)
  show ?thesis
    using chunks first second third
      split_sections_last_write_wins [OF chunks second later]
    by simp
qed

section \<open>The first fenced block\<close>

subsection \<open>A block that is there\<close>

lemma take3_append: "3 \<le> length xs \<Longrightarrow> take 3 (xs @ ys) = take 3 xs"
  by simp

lemma lazy_until_fence_nearest:
  "\<not> has_fence (body @ [BACKTICK, BACKTICK]) \<Longrightarrow>
     lazy_until_fence (body @ FENCE @ rest) = Some body"
proof (induction body)
  case Nil
  then show ?case by (simp add: FENCE_def)
next
  case (Cons c body)
  have "take 3 ((c # body @ [BACKTICK, BACKTICK]) @ BACKTICK # rest)
      = take 3 (c # body @ [BACKTICK, BACKTICK])"
    by (rule take3_append) simp
  then have "take 3 (c # body @ FENCE @ rest) = take 3 (c # body @ [BACKTICK, BACKTICK])"
    by (simp add: FENCE_def)
  moreover from Cons.prems have "take 3 (c # body @ [BACKTICK, BACKTICK]) \<noteq> FENCE"
    and "\<not> has_fence (body @ [BACKTICK, BACKTICK])" by auto
  ultimately show ?case using Cons.IH by simp
qed

lemma match_fence_block:
  assumes "NL \<notin> set tag" and "\<not> has_fence (body @ [BACKTICK, BACKTICK])"
  shows "match_fence (FENCE @ tag @ NL # body @ FENCE @ rest) = Some body"
proof -
  have "dropWhile (\<lambda>c. c \<noteq> NL) (tag @ NL # body @ FENCE @ rest) = NL # body @ FENCE @ rest"
    using assms(1) by (auto simp: dropWhile_append3)
  moreover have "take 3 (FENCE @ tag @ NL # body @ FENCE @ rest) = FENCE"
    and "drop 3 (FENCE @ tag @ NL # body @ FENCE @ rest) = tag @ NL # body @ FENCE @ rest"
    by (simp_all add: FENCE_def)
  ultimately show ?thesis
    using lazy_until_fence_nearest [OF assms(2)] by (simp add: match_fence_def)
qed

lemma search_fence_skip:
  "\<not> has_fence (pre @ [BACKTICK, BACKTICK]) \<Longrightarrow>
     search_fence (pre @ FENCE @ t) = search_fence (FENCE @ t)"
proof (induction pre)
  case Nil
  then show ?case by simp
next
  case (Cons c pre)
  have "take 3 ((c # pre @ [BACKTICK, BACKTICK]) @ BACKTICK # t)
      = take 3 (c # pre @ [BACKTICK, BACKTICK])"
    by (rule take3_append) simp
  then have "take 3 (c # pre @ FENCE @ t) = take 3 (c # pre @ [BACKTICK, BACKTICK])"
    by (simp add: FENCE_def)
  moreover from Cons.prems have "take 3 (c # pre @ [BACKTICK, BACKTICK]) \<noteq> FENCE"
    and "\<not> has_fence (pre @ [BACKTICK, BACKTICK])" by auto
  ultimately have "match_fence (c # pre @ FENCE @ t) = None"
    and "search_fence (pre @ FENCE @ t) = search_fence (FENCE @ t)"
    using Cons.IH by (simp_all add: match_fence_def)
  then show ?case by simp
qed

lemma search_fence_first_block:
  assumes "\<not> has_fence (pre @ [BACKTICK, BACKTICK])" and "NL \<notin> set tag"
    and "\<not> has_fence (body @ [BACKTICK, BACKTICK])"
  shows "search_fence (pre @ FENCE @ tag @ NL # body @ FENCE @ rest) = Some body"
proof -
  have "search_fence (FENCE @ tag @ NL # body @ FENCE @ rest) = Some body"
    using match_fence_block [OF assms(2,3), of rest] by (simp add: FENCE_def)
  then show ?thesis using search_fence_skip [OF assms(1)] by simp
qed

lemma rstrip_nl_decomp:
  "\<exists>n. body = rstrip_nl body @ replicate n NL"
proof -
  have "body = rev (takeWhile (\<lambda>c. c = NL) (rev body) @ dropWhile (\<lambda>c. c = NL) (rev body))"
    by simp
  also have "\<dots> = rstrip_nl body @ rev (takeWhile (\<lambda>c. c = NL) (rev body))"
    unfolding rstrip_nl_def by (rule rev_append)
  finally have b: "body = rstrip_nl body @ rev (takeWhile (\<lambda>c. c = NL) (rev body))" .
  have "replicate (length (rev (takeWhile (\<lambda>c. c = NL) (rev body)))) NL
      = rev (takeWhile (\<lambda>c. c = NL) (rev body))"
    by (rule replicate_length_same) (auto dest: set_takeWhileD)
  with b show ?thesis by metis
qed

lemma rstrip_nl_last: "rstrip_nl body \<noteq> [] \<Longrightarrow> last (rstrip_nl body) \<noteq> NL"
  unfolding rstrip_nl_def using hd_dropWhile [of "\<lambda>c. c = NL" "rev body"]
  by (simp add: last_rev)

text \<open>
  Claim C6. \<open>extract_fenced_code\<close> drops the language tag of the opening fence line and
  the line breaks at the end of the content, and nothing else: for a text that opens with a
  fence, whatever tag follows on that line, the result is the content up to the nearest
  closing fence without its trailing newlines, so the content is the result followed by
  newlines only, and the result does not end with a newline. Whitespace at the start of the
  content and inside it is returned as it is. In particular the text
  \<open>"```python\nprint(1)\n```"\<close> gives \<open>"print(1)"\<close>.
\<close>

theorem extract_fenced_code_drops_tag_and_trailing_newlines:
  assumes "NL \<notin> set tag" and "\<not> has_fence (body @ [BACKTICK, BACKTICK])"
  shows "extract_fenced_code (FENCE @ tag @ NL # body @ FENCE @ rest) = Some (rstrip_nl body)
    \<and> (\<exists>n. body = rstrip_nl body @ replicate n NL)
    \<and> (rstrip_nl body \<noteq> [] \<longrightarrow> last (rstrip_nl body) \<noteq> NL)
    \<and> extract_fenced_code (lit ''```python'' @ [NL] @ lit ''print(1)'' @ [NL] @ lit ''```'')
        = Some (lit ''print(1)'')"
proof -
  have "\<not> has_fence ([] @ [BACKTICK, BACKTICK])" by (simp add: FENCE_def)
  from search_fence_first_block [OF this assms, of rest]
  have "extract_fenced_code (FENCE @ tag @ NL # body @ FENCE @ rest) = Some (rstrip_nl body)"
    by (simp add: extract_fenced_code_def)
  moreover have "extract_fenced_code
      (lit ''```python'' @ [NL] @ lit ''print(1)'' @ [NL] @ lit ''```'') = Some (lit ''print(1)'')"
    by (simp add: code_points text_ops match_fence_def extract_fenced_code_def)
  ultimately show ?thesis
    using rstrip_nl_decomp [of body] rstrip_nl_last [of body] by simp
qed

theorem extract_fenced_code_drops_tag_and_trailing_newlines_witness:
  "NL \<notin> set (lit ''sh'')
   \<and> \<not> has_fence ((lit ''  ls  -l'' @ [NL, NL] @ lit '' pwd'' @ [NL, NL]) @ [BACKTICK, BACKTICK])
   \<and> extract_fenced_code
       (FENCE @ lit ''sh'' @ NL # (lit ''  ls  -l'' @ [NL, NL] @ lit '' pwd'' @ [NL, NL])
        @ FENCE @ lit '' end'')
     = Some (lit ''  ls  -l'' @ [NL, NL] @ lit '' pwd'')
   \<and> rstrip_nl (lit ''  ls  -l'' @ [NL, NL] @ lit '' pwd'' @ [NL, NL])
     = lit ''  ls  -l'' @ [NL, NL] @ lit '' pwd''"
proof -
  have t: "NL \<notin> set (lit ''sh'')" by (simp add: code_points)
  have b: "\<not> has_fence ((lit ''  ls  -l'' @ [NL, NL] @ lit '' pwd'' @ [NL, NL])
      @ [BACKTICK, BACKTICK])"
    by (simp add: code_points)
  have r: "rstrip_nl (lit ''  ls  -l'' @ [NL, NL] @ lit '' pwd'' @ [NL, NL])
      = lit ''  ls  -l'' @ [NL, NL] @ lit '' pwd''"
    by (simp add: code_points text_ops)
  show ?thesis
    using t b r
      extract_fenced_code_drops_tag_and_trailing_newlines [OF t b, of "lit '' end''"]
    by simp
qed

text \<open>
  Claim C7. For a text with two fenced blocks or more, \<open>extract_fenced_code\<close> returns
  the content of the first one only. The first opening marker of the text (no marker starts
  before it), the rest of its line and the line break open the block; the content runs, over
  any number of lines, blank ones included, to the nearest closing marker (no marker starts
  inside the content); whatever follows that marker, further blocks included, has no part in
  the result.
\<close>

theorem extract_fenced_code_first_block_only:
  assumes "\<not> has_fence (pre @ [BACKTICK, BACKTICK])" and "NL \<notin> set tag"
    and "\<not> has_fence (body @ [BACKTICK, BACKTICK])"
  shows "extract_fenced_code (pre @ FENCE @ tag @ NL # body @ FENCE @ rest)
    = Some (rstrip_nl body)"
  using search_fence_first_block [OF assms, of rest] by (simp add: extract_fenced_code_def)

theorem extract_fenced_code_first_block_only_witness:
  "\<not> has_fence (lit ''Run: '' @ [BACKTICK, BACKTICK]) \<and> NL \<notin> set (lit ''py'')
   \<and> \<not> has_fence ((lit ''a = 1'' @ [NL, NL] @ lit ''b = 2'' @ [NL]) @ [BACKTICK, BACKTICK])
   \<and> extract_fenced_code
       (lit ''Run: '' @ FENCE @ lit ''py'' @ NL # (lit ''a = 1'' @ [NL, NL] @ lit ''b = 2'' @ [NL])
        @ FENCE @ ([NL] @ lit ''then'' @ [NL] @ FENCE @ lit ''sh'' @ [NL] @ lit ''ls'' @ [NL] @ FENCE))
     = Some (lit ''a = 1'' @ [NL, NL] @ lit ''b = 2'')"
proof -
  have p: "\<not> has_fence (lit ''Run: '' @ [BACKTICK, BACKTICK])" by (simp add: code_points)
  have t: "NL \<notin> set (lit ''py'')" by (simp add: code_points)
  have b: "\<not> has_fence ((lit ''a = 1'' @ [NL, NL] @ lit ''b = 2'' @ [NL]) @ [BACKTICK, BACKTICK])"
    by (simp add: code_points)
  have r: "rstrip_nl (lit ''a = 1'' @ [NL, NL] @ lit ''b = 2'' @ [NL])
      = lit ''a = 1'' @ [NL, NL] @ lit ''b = 2''"
    by (simp add: code_points text_ops)
  show ?thesis
    using p t b r
      extract_fenced_code_first_block_only [OF p t b,
        of "[NL] @ lit ''then'' @ [NL] @ FENCE @ lit ''sh'' @ [NL] @ lit ''ls'' @ [NL] @ FENCE"]
    by simp
qed

subsection \<open>No block\<close>

lemma lazy_until_fence_sound:
  "lazy_until_fence s = Some g \<Longrightarrow> \<exists>rest. s = g @ FENCE @ rest"
proof (induction s arbitrary: g)
  case Nil
  then show ?case by simp
next
  case (Cons c s)
  show ?case
  proof (cases "take 3 (c # s) = FENCE")
    case True
    then have "c # s = FENCE @ drop 3 (c # s)"
      by (metis append_take_drop_id)
    with True Cons.prems show ?thesis by auto
  next
    case False
    with Cons.prems obtain g' where g': "lazy_until_fence s = Some g'" and g: "g = c # g'"
      by (auto split: option.splits)
    from Cons.IH [OF g'] g show ?thesis by auto
  qed
qed

lemma match_fence_sound:
  assumes "match_fence s = Some g"
  shows "\<exists>tag rest. s = FENCE @ tag @ NL # g @ FENCE @ rest \<and> NL \<notin> set tag"
proof -
  from assms have t: "take 3 s = FENCE" by (auto simp: match_fence_def split: if_splits)
  from assms t obtain c body where d: "dropWhile (\<lambda>c. c \<noteq> NL) (drop 3 s) = c # body"
    and l: "lazy_until_fence body = Some g"
    by (auto simp: match_fence_def split: list.splits)
  from d have c: "c = NL" using hd_dropWhile [of "\<lambda>c. c \<noteq> NL" "drop 3 s"] by auto
  from lazy_until_fence_sound [OF l] obtain rest where b: "body = g @ FENCE @ rest" by blast
  let ?tag = "takeWhile (\<lambda>c. c \<noteq> NL) (drop 3 s)"
  have "drop 3 s = ?tag @ dropWhile (\<lambda>c. c \<noteq> NL) (drop 3 s)" by simp
  then have "drop 3 s = ?tag @ NL # g @ FENCE @ rest" using d c b by simp
  moreover have "s = take 3 s @ drop 3 s" by simp
  ultimately have "s = FENCE @ ?tag @ NL # g @ FENCE @ rest" using t by simp
  moreover have "NL \<notin> set ?tag" by (auto dest: set_takeWhileD)
  ultimately show ?thesis by blast
qed

lemma search_fence_sound:
  "search_fence s = Some g \<Longrightarrow>
     \<exists>pre tag rest. s = pre @ FENCE @ tag @ NL # g @ FENCE @ rest \<and> NL \<notin> set tag"
proof (induction s)
  case Nil
  then show ?case by (simp add: match_fence_def FENCE_def)
next
  case (Cons c s)
  show ?case
  proof (cases "match_fence (c # s)")
    case (Some g')
    with Cons.prems have "match_fence (c # s) = Some g" by simp
    from match_fence_sound [OF this] show ?thesis by (metis append_Nil)
  next
    case None
    with Cons.prems have "search_fence s = Some g" by simp
    from Cons.IH [OF this] obtain pre tag rest
      where "s = pre @ FENCE @ tag @ NL # g @ FENCE @ rest" and "NL \<notin> set tag" by blast
    then have "c # s = (c # pre) @ FENCE @ tag @ NL # g @ FENCE @ rest \<and> NL \<notin> set tag" by simp
    then show ?thesis by blast
  qed
qed

lemma has_fence_append: "has_fence (pre @ FENCE @ rest)"
  by (induction pre) (simp_all add: FENCE_def)

text \<open>
  Claim C8. For a text with no complete fenced block (no opening marker with the rest of
  its line, a line break, a content and a closing marker), and so for every text with no
  marker at all, \<open>extract_fenced_code\<close> returns the absent result; the function has no
  other outcome than a result or its absence.
\<close>

theorem extract_fenced_code_not_found:
  "(\<not> (\<exists>pre tag body rest. md = pre @ FENCE @ tag @ NL # body @ FENCE @ rest \<and> NL \<notin> set tag)
      \<longrightarrow> extract_fenced_code md = None)
   \<and> (\<not> has_fence md \<longrightarrow> extract_fenced_code md = None)"
proof -
  have block: "\<exists>pre tag body rest. md = pre @ FENCE @ tag @ NL # body @ FENCE @ rest
      \<and> NL \<notin> set tag" if "extract_fenced_code md \<noteq> None"
  proof -
    from that obtain g where "search_fence md = Some g"
      by (auto simp: extract_fenced_code_def split: option.splits)
    from search_fence_sound [OF this] show ?thesis by blast
  qed
  moreover have "has_fence md" if "extract_fenced_code md \<noteq> None"
    using block [OF that] has_fence_append by blast
  ultimately show ?thesis by blast
qed

theorem extract_fenced_code_not_found_witness:
  "\<not> (\<exists>pre tag body rest.
        lit ''no code here'' = pre @ FENCE @ tag @ NL # body @ FENCE @ rest \<and> NL \<notin> set tag)
   \<and> \<not> has_fence (lit ''no code here'')
   \<and> extract_fenced_code (lit ''no code here'') = None"
proof -
  have n: "\<not> has_fence (lit ''no code here'')" by (simp add: code_points)
  have b: "\<not> (\<exists>pre tag body rest.
      lit ''no code here'' = pre @ FENCE @ tag @ NL # body @ FENCE @ rest \<and> NL \<notin> set tag)"
    using n has_fence_append by metis
  show ?thesis
    using n b extract_fenced_code_not_found [of "lit ''no code here''"] by blast
qed

subsection \<open>Markers on one line\<close>








section \<open>Document assembly: bullet lists\<close>








section \<open>Document assembly: the example fallback\<close>




end
